theory Spec2Isabelle
  imports Main
begin

section \<open>Errors\<close>

text \<open>
  The library itself raises nothing; what can be thrown comes from the host:
  \<^verbatim>\<open>new RegExp\<close> throws a SyntaxError on an ill-formed pattern and reading
  \<^verbatim>\<open>.length\<close> of \<^verbatim>\<open>undefined\<close> throws a TypeError. \<open>Unsupported\<close> is not an error of
  the program: it marks regular-expression syntax that lies outside the fragment of
  the host's RegExp that is modelled below, so that nothing is asserted about it.
\<close>

datatype error = SyntaxError | TypeError | Unsupported

section \<open>The glob-to-regex translation of FileGlob\<close>

text \<open>
  The loop of \<^verbatim>\<open>FileGlob\<close> (lines 31-55) scans the glob from left to right and
  appends to \<^verbatim>\<open>pattern\<close>. \<^verbatim>\<open>glob[i]\<close> past the end of the string is
  \<^verbatim>\<open>undefined\<close>, which equals no character.
\<close>

definition backslash :: char where
  "backslash = CHR 0x5C"

definition char_at :: "string \<Rightarrow> nat \<Rightarrow> char option" where
  "char_at glob i = (if i < length glob then Some (glob ! i) else None)"

function FileGlob_loop :: "string \<Rightarrow> nat \<Rightarrow> string \<Rightarrow> string" where
  "FileGlob_loop glob i pattern =
     (if i < length glob then
        (let ch = glob ! i in
         if ch = CHR ''*'' then
           (if char_at glob (i + 1) = Some CHR ''*'' \<and> char_at glob (i + 2) = Some CHR ''/''
            then FileGlob_loop glob (i + 2 + 1) (pattern @ ''([^/]*/)*'')
            else FileGlob_loop glob (i + 1) (pattern @ ''[^/]*''))
         else if ch = CHR ''?'' then FileGlob_loop glob (i + 1) (pattern @ ''[^/]'')
         else if ch = CHR ''.'' then FileGlob_loop glob (i + 1) (pattern @ [backslash, CHR ''.''])
         else FileGlob_loop glob (i + 1) (pattern @ [ch]))
      else pattern)"
  by pat_completeness auto
termination
  by (relation "measure (\<lambda>(glob, i, pattern). length glob - i)") auto

declare FileGlob_loop.simps [simp del]

text \<open>
  The same scan by recursion on the rest of the glob (\<open>FileGlob_loop_glob_pattern\<close>
  below): at a \<^verbatim>\<open>*\<close> the next two characters are looked at, and skipped when they
  are \<^verbatim>\<open>*/\<close>.
\<close>

fun glob_pattern :: "string \<Rightarrow> string" where
  "glob_pattern [] = []"
| "glob_pattern (ch # rest) =
     (if ch = CHR ''*'' then
        (if take 2 rest = ''*/'' then ''([^/]*/)*'' @ glob_pattern (drop 2 rest)
         else ''[^/]*'' @ glob_pattern rest)
      else if ch = CHR ''?'' then ''[^/]'' @ glob_pattern rest
      else if ch = CHR ''.'' then [backslash, CHR ''.''] @ glob_pattern rest
      else ch # glob_pattern rest)"

section \<open>The host's RegExp: the modelled fragment\<close>

text \<open>
  \<^verbatim>\<open>FileGlob\<close> hands its pattern to the host's \<^verbatim>\<open>RegExp\<close> and asks it
  \<^verbatim>\<open>test\<close>. The host is modelled on 8-bit characters and on the part of its pattern
  syntax (without flags) that a translated glob can reach with a definite answer here:
  literal characters, \<^verbatim>\<open>.\<close>, the assertions \<^verbatim>\<open>^\<close> and \<^verbatim>\<open>$\<close>, groups,
  \<^verbatim>\<open>|\<close>, the quantifiers \<^verbatim>\<open>*\<close> and \<^verbatim>\<open>+\<close>, classes of single characters, and a
  backslash before a syntax character. The reader answers \<open>Unsupported\<close> on the rest:
  \<^verbatim>\<open>?\<close> (which the translation never emits), \<^verbatim>\<open>{\<close>, a range in a class, and a
  backslash before any other character. A \<^verbatim>\<open>]\<close> and a \<^verbatim>\<open>}\<close> outside a class stand
  for themselves, as the host reads them without the unicode flag.

  \<open>Grp\<close> is a parenthesised group, \<open>Bol\<close> and \<open>Eol\<close> are the assertions
  \<^verbatim>\<open>^\<close> and \<^verbatim>\<open>$\<close>, \<open>Cls neg cs\<close> is a character class (negated when \<open>neg\<close>),
  \<open>AnyCh\<close> is the dot (any character but a line terminator).
\<close>

datatype re = Eps | Lit char | AnyCh | Cls bool "char list" | Bol | Eol
  | Seq re re | Alt re re | Star re | Plus re | Grp re

text \<open>A quantifier applies to an atom only: not to an assertion, not to a quantified term.\<close>

fun quantifiable :: "re \<Rightarrow> bool" where
  "quantifiable (Lit c) = True"
| "quantifiable AnyCh = True"
| "quantifiable (Cls neg cs) = True"
| "quantifiable (Grp r) = True"
| "quantifiable r = False"

definition syntax_char :: "char \<Rightarrow> bool" where
  "syntax_char c = (c \<in> set ''^$.*+?()[]{}|'' \<or> c = backslash)"

fun seq_of :: "re list \<Rightarrow> re" where
  "seq_of [] = Eps"
| "seq_of (t # ts) = Seq t (seq_of ts)"

text \<open>
  The reader keeps, for the group it is in, the alternatives already closed by a
  \<^verbatim>\<open>|\<close> and the terms of the alternative being read, both latest first; the
  enclosing groups wait on a stack.
\<close>

type_synonym frame = "re list \<times> re list"

definition close_frame :: "frame \<Rightarrow> re" where
  "close_frame fr = foldl (\<lambda>acc a. Alt a acc) (seq_of (rev (snd fr))) (fst fr)"

datatype mode = Normal | Esc | ClsOpen | InCls bool "char list" | ClsEsc bool "char list"

type_synonym pstate = "mode \<times> frame \<times> frame list"

definition quantify :: "(re \<Rightarrow> re) \<Rightarrow> frame \<Rightarrow> frame list \<Rightarrow> error + pstate" where
  "quantify q fr stack =
     (case snd fr of
        [] \<Rightarrow> Inl SyntaxError
      | t # ts \<Rightarrow> if quantifiable t then Inr (Normal, (fst fr, q t # ts), stack)
                 else Inl SyntaxError)"

definition class_step :: "char \<Rightarrow> bool \<Rightarrow> char list \<Rightarrow> frame \<Rightarrow> frame list \<Rightarrow> error + pstate" where
  "class_step c neg cs fr stack =
     (if c = CHR '']'' then Inr (Normal, (fst fr, Cls neg cs # snd fr), stack)
      else if c = backslash then Inr (ClsEsc neg cs, fr, stack)
      else if c = CHR ''-'' then Inl Unsupported
      else Inr (InCls neg (cs @ [c]), fr, stack))"

fun step :: "char \<Rightarrow> pstate \<Rightarrow> error + pstate" where
  "step c (Normal, fr, stack) =
     (if c = CHR ''^'' then Inr (Normal, (fst fr, Bol # snd fr), stack)
      else if c = CHR ''$'' then Inr (Normal, (fst fr, Eol # snd fr), stack)
      else if c = CHR ''.'' then Inr (Normal, (fst fr, AnyCh # snd fr), stack)
      else if c = CHR ''|'' then Inr (Normal, (seq_of (rev (snd fr)) # fst fr, []), stack)
      else if c = CHR ''('' then Inr (Normal, ([], []), fr # stack)
      else if c = CHR '')'' then
        (case stack of
           [] \<Rightarrow> Inl SyntaxError
         | outer # stack' \<Rightarrow> Inr (Normal, (fst outer, Grp (close_frame fr) # snd outer), stack'))
      else if c = CHR ''*'' then quantify Star fr stack
      else if c = CHR ''+'' then quantify Plus fr stack
      else if c = CHR ''?'' \<or> c = CHR ''{'' then Inl Unsupported
      else if c = CHR ''['' then Inr (ClsOpen, fr, stack)
      else if c = backslash then Inr (Esc, fr, stack)
      else Inr (Normal, (fst fr, Lit c # snd fr), stack))"
| "step c (Esc, fr, stack) =
     (if syntax_char c \<or> c = CHR ''/'' then Inr (Normal, (fst fr, Lit c # snd fr), stack)
      else Inl Unsupported)"
| "step c (ClsOpen, fr, stack) =
     (if c = CHR ''^'' then Inr (InCls True [], fr, stack)
      else class_step c False [] fr stack)"
| "step c (InCls neg cs, fr, stack) = class_step c neg cs fr stack"
| "step c (ClsEsc neg cs, fr, stack) =
     (if syntax_char c \<or> c = CHR ''/'' \<or> c = CHR ''-'' then Inr (InCls neg (cs @ [c]), fr, stack)
      else Inl Unsupported)"

fun steps :: "pstate \<Rightarrow> string \<Rightarrow> error + pstate" where
  "steps st [] = Inr st"
| "steps st (c # cs) = (case step c st of Inl e \<Rightarrow> Inl e | Inr st' \<Rightarrow> steps st' cs)"

fun finish :: "pstate \<Rightarrow> error + re" where
  "finish (Normal, fr, []) = Inr (close_frame fr)"
| "finish st = Inl SyntaxError"

definition RegExp :: "string \<Rightarrow> error + re" where
  "RegExp src = (case steps (Normal, ([], []), []) src of Inl e \<Rightarrow> Inl e | Inr st \<Rightarrow> finish st)"

subsection \<open>Matching\<close>

text \<open>
  A matcher state is the rest of the input and whether no character has been consumed
  yet (for \<^verbatim>\<open>^\<close>). \<open>run r x\<close> lists the states in which a match of \<open>r\<close> begun
  in \<open>x\<close> can end; \<^verbatim>\<open>test\<close> only asks whether there is one, so the order in which
  the host's backtracking would find them does not matter. An iteration of \<^verbatim>\<open>*\<close> that
  consumes nothing is dropped, as the host's RepeatMatcher does, which also makes the
  recursion end; the first iteration of \<^verbatim>\<open>+\<close> may consume nothing.
\<close>

type_synonym mstate = "bool \<times> string"

fun weight :: "re \<Rightarrow> nat" where
  "weight (Seq a b) = Suc (weight a + weight b)"
| "weight (Alt a b) = Suc (weight a + weight b)"
| "weight (Star r) = Suc (weight r)"
| "weight (Plus r) = Suc (Suc (weight r))"
| "weight (Grp r) = Suc (weight r)"
| "weight r = 0"

function run :: "re \<Rightarrow> mstate \<Rightarrow> mstate list" where
  "run Eps x = [x]"
| "run (Lit c) x = (case snd x of [] \<Rightarrow> [] | d # ds \<Rightarrow> if d = c then [(False, ds)] else [])"
| "run AnyCh x =
     (case snd x of [] \<Rightarrow> []
      | d # ds \<Rightarrow> if d \<noteq> CHR 0x0A \<and> d \<noteq> CHR 0x0D then [(False, ds)] else [])"
| "run (Cls neg cs) x =
     (case snd x of [] \<Rightarrow> [] | d # ds \<Rightarrow> if (d \<in> set cs) \<noteq> neg then [(False, ds)] else [])"
| "run Bol x = (if fst x then [x] else [])"
| "run Eol x = (if snd x = [] then [x] else [])"
| "run (Seq a b) x = concat (map (run b) (run a x))"
| "run (Alt a b) x = run a x @ run b x"
| "run (Grp r) x = run r x"
| "run (Plus r) x = concat (map (run (Star r)) (run r x))"
| "run (Star r) x =
     x # concat (map (run (Star r)) (filter (\<lambda>y. length (snd y) < length (snd x)) (run r x)))"
  by pat_completeness auto
termination
  by (relation "inv_image (less_than <*lex*> less_than) (\<lambda>(r, x). (weight r, length (snd x)))")
     auto

declare run.simps(10,11) [simp del]

text \<open>
  \<^verbatim>\<open>re.test(path)\<close> of a regular expression without flags: a match may begin at
  any index of the path, 0 to its length.
\<close>

definition test :: "re \<Rightarrow> string \<Rightarrow> bool" where
  "test r s = list_ex (\<lambda>i. run r (i = 0, drop i s) \<noteq> []) [0..<Suc (length s)]"

section \<open>FileGlob\<close>

text \<open>
  A FileGlob object holds the compiled expression \<^verbatim>\<open>re\<close>; \<open>source\<close> is what
  \<^verbatim>\<open>toString\<close> shows of it.
\<close>

record fileglob =
  source :: string
  regex :: re

definition fileglob_matches :: "fileglob \<Rightarrow> string \<Rightarrow> bool" where
  "fileglob_matches f path = test (regex f) path"

definition fileglob_filter :: "fileglob \<Rightarrow> string list \<Rightarrow> string list" where
  "fileglob_filter f list = filter (\<lambda>path. fileglob_matches f path) list"

section \<open>The sets\<close>

text \<open>
  The objects whose prototype chain reaches \<^verbatim>\<open>Set.prototype\<close>: \<^verbatim>\<open>EmptySet\<close>
  itself, and what the constructors \<^verbatim>\<open>FileGlobSet\<close>, \<^verbatim>\<open>Compliment\<close> and
  \<^verbatim>\<open>Union\<close> build (their prototypes are \<^verbatim>\<open>EmptySet\<close> or a \<^verbatim>\<open>new Set()\<close>).
  A \<open>FileGlobSetObj\<close> holds its \<^verbatim>\<open>fglobs\<close>.
\<close>

datatype matchable = EmptySet
  | FileGlobSetObj "fileglob list"
  | ComplimentObj matchable matchable
  | UnionObj "matchable list"

fun matches :: "matchable \<Rightarrow> string \<Rightarrow> bool" where
  "matches EmptySet path = False"
| "matches (FileGlobSetObj fglobs) path = list_ex (\<lambda>fglob. fileglob_matches fglob path) fglobs"
| "matches (ComplimentObj includes excludes) path =
     (matches includes path \<and> \<not> matches excludes path)"
| "matches (UnionObj sets) path = list_ex (\<lambda>s. matches s path) sets"

text \<open>
  \<^verbatim>\<open>Set.prototype.filter\<close> returns \<^verbatim>\<open>[]\<close>; the three constructors install
  their own \<^verbatim>\<open>filter\<close>, each \<^verbatim>\<open>list.filter(path => matches(path))\<close>.
\<close>

fun filter_set :: "matchable \<Rightarrow> string list \<Rightarrow> string list" where
  "filter_set EmptySet list = []"
| "filter_set (FileGlobSetObj fglobs) list =
     filter (\<lambda>path. matches (FileGlobSetObj fglobs) path) list"
| "filter_set (ComplimentObj includes excludes) list =
     filter (\<lambda>path. matches (ComplimentObj includes excludes) path) list"
| "filter_set (UnionObj sets) list = filter (\<lambda>path. matches (UnionObj sets) path) list"

section \<open>Values handed to the factories\<close>

text \<open>
  What a caller can pass where a glob is expected: nothing, a string, a FileGlob
  object or a set object; \<^verbatim>\<open>makeSet\<close> also takes an array of these.
\<close>

datatype jsval = VUndefined | VString string | VFileGlob fileglob | VSet matchable

datatype arg = Single jsval | Array "jsval list"

text \<open>
  \<^verbatim>\<open>new FileGlob(glob)\<close>. The loop runs while \<^verbatim>\<open>i < glob.length\<close>: on a string it
  is the loop above, from index 0 and the empty pattern; an object without a \<^verbatim>\<open>length\<close> (a FileGlob, a set)
  gives \<^verbatim>\<open>0 < undefined\<close>, false, and the pattern stays empty; on \<^verbatim>\<open>undefined\<close>
  reading \<^verbatim>\<open>length\<close> throws.
\<close>

definition compile :: "string \<Rightarrow> error + fileglob" where
  "compile pattern =
     (let src = ''^'' @ pattern @ ''$'' in
      case RegExp src of Inl e \<Rightarrow> Inl e | Inr r \<Rightarrow> Inr \<lparr>source = src, regex = r\<rparr>)"

fun FileGlob :: "jsval \<Rightarrow> error + fileglob" where
  "FileGlob (VString glob) = compile (FileGlob_loop glob 0 [])"
| "FileGlob VUndefined = Inl TypeError"
| "FileGlob (VFileGlob f) = compile []"
| "FileGlob (VSet s) = compile []"

text \<open>\<^verbatim>\<open>globs.map(glob => new FileGlob(glob))\<close>: the first throw ends the map.\<close>

fun map_FileGlob :: "jsval list \<Rightarrow> error + fileglob list" where
  "map_FileGlob [] = Inr []"
| "map_FileGlob (glob # globs) =
     (case FileGlob glob of
        Inl e \<Rightarrow> Inl e
      | Inr f \<Rightarrow> (case map_FileGlob globs of Inl e \<Rightarrow> Inl e | Inr fs \<Rightarrow> Inr (f # fs)))"

definition FileGlobSet :: "jsval list \<Rightarrow> error + matchable" where
  "FileGlobSet globs =
     (case map_FileGlob globs of Inl e \<Rightarrow> Inl e | Inr fglobs \<Rightarrow> Inr (FileGlobSetObj fglobs))"

text \<open>\<^verbatim>\<open>x instanceof Set\<close>.\<close>

fun isaSet :: "arg \<Rightarrow> bool" where
  "isaSet (Single (VSet s)) = True"
| "isaSet x = False"

definition make :: "string \<Rightarrow> error + fileglob" where
  "make glob = FileGlob (VString glob)"

fun makeSet :: "arg \<Rightarrow> error + matchable" where
  "makeSet (Single VUndefined) = Inr EmptySet"
| "makeSet (Single (VSet s)) = Inr s"
| "makeSet (Single v) = FileGlobSet [v]"
| "makeSet (Array globs) = FileGlobSet globs"

definition makeCompliment :: "arg \<Rightarrow> arg \<Rightarrow> error + matchable" where
  "makeCompliment includes excludes =
     (case makeSet includes of
        Inl e \<Rightarrow> Inl e
      | Inr i \<Rightarrow> (case makeSet excludes of Inl e \<Rightarrow> Inl e | Inr x \<Rightarrow> Inr (ComplimentObj i x)))"

fun makeSets :: "arg list \<Rightarrow> error + matchable list" where
  "makeSets [] = Inr []"
| "makeSets (a # as) =
     (case makeSet a of
        Inl e \<Rightarrow> Inl e
      | Inr s \<Rightarrow> (case makeSets as of Inl e \<Rightarrow> Inl e | Inr ss \<Rightarrow> Inr (s # ss)))"

definition makeUnion :: "arg list \<Rightarrow> error + matchable" where
  "makeUnion arguments =
     (case makeSets arguments of Inl e \<Rightarrow> Inl e | Inr sets \<Rightarrow> Inr (UnionObj sets))"

text \<open>\<^verbatim>\<open>make(glob).matches(path)\<close>, with what \<^verbatim>\<open>make\<close> may throw.\<close>

definition make_matches :: "string \<Rightarrow> string \<Rightarrow> error + bool" where
  "make_matches glob path =
     (case make glob of Inl e \<Rightarrow> Inl e | Inr f \<Rightarrow> Inr (fileglob_matches f path))"

section \<open>What a compiled glob accepts\<close>

text \<open>
  The strings an expression without assertions consumes, as sets: \<open>conc\<close> is
  concatenation and \<open>star\<close> is iteration. \<open>pure\<close> holds of the expressions without
  \<^verbatim>\<open>^\<close> and \<^verbatim>\<open>$\<close>; on them \<open>run\<close> ends exactly in the states of \<open>ends\<close>.
\<close>

definition conc :: "string set \<Rightarrow> string set \<Rightarrow> string set" where
  "conc A B = {u @ v | u v. u \<in> A \<and> v \<in> B}"

inductive_set star :: "string set \<Rightarrow> string set" for A :: "string set" where
  star_Nil: "[] \<in> star A"
| star_app: "u \<in> A \<Longrightarrow> v \<in> star A \<Longrightarrow> u @ v \<in> star A"

fun lang :: "re \<Rightarrow> string set" where
  "lang Eps = {[]}"
| "lang (Lit c) = {[c]}"
| "lang AnyCh = {[d] | d. d \<noteq> CHR 0x0A \<and> d \<noteq> CHR 0x0D}"
| "lang (Cls neg cs) = {[d] | d. (d \<in> set cs) \<noteq> neg}"
| "lang Bol = {}"
| "lang Eol = {}"
| "lang (Seq a b) = conc (lang a) (lang b)"
| "lang (Alt a b) = lang a \<union> lang b"
| "lang (Grp r) = lang r"
| "lang (Plus r) = conc (lang r) (star (lang r))"
| "lang (Star r) = star (lang r)"

fun pure :: "re \<Rightarrow> bool" where
  "pure Bol = False"
| "pure Eol = False"
| "pure (Seq a b) = (pure a \<and> pure b)"
| "pure (Alt a b) = (pure a \<and> pure b)"
| "pure (Grp r) = pure r"
| "pure (Plus r) = pure r"
| "pure (Star r) = pure r"
| "pure r = True"

definition ends :: "re \<Rightarrow> mstate \<Rightarrow> mstate set" where
  "ends r x = {(fst x \<and> u = [], v) | u v. snd x = u @ v \<and> u \<in> lang r}"

text \<open>
  The characters that the expression reader takes for themselves, and the globs made
  of them and of the three glob tokens \<^verbatim>\<open>*\<close>, \<^verbatim>\<open>?\<close> and \<^verbatim>\<open>.\<close> only.
\<close>

definition literal_char :: "char \<Rightarrow> bool" where
  "literal_char c = (c \<notin> set ''^$.|()*+?{['' \<and> c \<noteq> backslash)"

definition safe_glob :: "string \<Rightarrow> bool" where
  "safe_glob glob = list_all (\<lambda>c. literal_char c \<or> c = CHR ''*'' \<or> c = CHR ''?'' \<or> c = CHR ''.'') glob"

text \<open>
  The terms that the expression of such a glob is read as: one per glob token, the
  expression read from \<^verbatim>\<open>([^/]*/)*\<close> for the token \<^verbatim>\<open>**/\<close>.
\<close>

definition any_segments :: re where
  "any_segments = Star (Grp (Seq (Star (Cls True ''/'')) (Seq (Lit CHR ''/'') Eps)))"

fun glob_terms :: "string \<Rightarrow> re list" where
  "glob_terms [] = []"
| "glob_terms (ch # rest) =
     (if ch = CHR ''*'' then
        (if take 2 rest = ''*/'' then any_segments # glob_terms (drop 2 rest)
         else Star (Cls True ''/'') # glob_terms rest)
      else if ch = CHR ''?'' then Cls True ''/'' # glob_terms rest
      else Lit ch # glob_terms rest)"

definition glob_lang :: "string \<Rightarrow> string set" where
  "glob_lang g = lang (seq_of (glob_terms g))"

text \<open>
  A glob can be cut in two, each part scanned as if alone, unless the first part ends
  in a \<^verbatim>\<open>*\<close> whose lookahead would reach a \<^verbatim>\<open>/\<close> of the second.
\<close>

definition clean_cut :: "string \<Rightarrow> string \<Rightarrow> bool" where
  "clean_cut pre suf =
     (pre = [] \<or> last pre \<noteq> CHR ''*'' \<or> (take 1 suf \<noteq> ''/'' \<and> take 2 suf \<noteq> ''*/''))"

section \<open>The loop and the recursion on the glob\<close>

lemma lookahead_take2:
  "(char_at glob (i + 1) = Some a \<and> char_at glob (i + 2) = Some b) =
   (take 2 (drop (Suc i) glob) = [a, b])"
proof (cases "i + 2 < length glob")
  case True
  then have "drop (Suc i) glob = glob ! (i + 1) # glob ! (i + 2) # drop (i + 3) glob"
    by (simp add: Cons_nth_drop_Suc[symmetric] numeral_3_eq_3)
  then show ?thesis using True by (auto simp: char_at_def)
next
  case False
  then have l: "length (drop (Suc i) glob) < 2" by auto
  have "take 2 (drop (Suc i) glob) \<noteq> [a, b]"
  proof
    assume "take 2 (drop (Suc i) glob) = [a, b]"
    then have "length (take 2 (drop (Suc i) glob)) = length [a, b]" by (rule arg_cong)
    then show False using l by simp
  qed
  then show ?thesis using False by (auto simp: char_at_def)
qed

lemma FileGlob_loop_glob_pattern:
  "FileGlob_loop glob i pattern = pattern @ glob_pattern (drop i glob)"
proof (induction glob i pattern rule: FileGlob_loop.induct)
  case (1 glob i pattern)
  show ?case
  proof (cases "i < length glob")
    case False
    then show ?thesis by (subst FileGlob_loop.simps) simp
  next
    case True
    then have d: "drop i glob = glob ! i # drop (Suc i) glob"
      by (simp add: Cons_nth_drop_Suc)
    have d3: "drop 2 (drop (Suc i) glob) = drop (i + 2 + 1) glob"
      by (simp add: add.commute)
    show ?thesis
      using True "1.IH" lookahead_take2[of glob i "CHR ''*''" "CHR ''/''"]
      by (subst FileGlob_loop.simps) (auto simp: d d3 Let_def simp del: drop_drop)
  qed
qed

lemma FileGlob_string: "FileGlob (VString glob) = compile (glob_pattern glob)"
  by (simp add: FileGlob_loop_glob_pattern)

section \<open>The matcher and the language of an expression\<close>

lemma star_step_nonempty:
  "w \<in> star A \<Longrightarrow> w = [] \<or> (\<exists>u v. w = u @ v \<and> u \<in> A \<and> u \<noteq> [] \<and> v \<in> star A)"
proof (induction rule: star.induct)
  case star_Nil
  then show ?case by simp
next
  case (star_app u v)
  show ?case
  proof (cases "u = []")
    case True
    then show ?thesis using star_app by simp
  next
    case False
    then show ?thesis using star_app by blast
  qed
qed

lemma ends_Seq: "(\<Union>y \<in> ends a x. ends b y) = ends (Seq a b) x"
proof (intro set_eqI iffI)
  fix z assume "z \<in> (\<Union>y \<in> ends a x. ends b y)"
  then obtain u v u' v' where "snd x = u @ v" "u \<in> lang a" "v = u' @ v'" "u' \<in> lang b"
    "z = ((fst x \<and> u = []) \<and> u' = [], v')"
    unfolding ends_def by auto
  then have "snd x = (u @ u') @ v'" "u @ u' \<in> lang (Seq a b)" "z = (fst x \<and> u @ u' = [], v')"
    by (auto simp: conc_def)
  then show "z \<in> ends (Seq a b) x" unfolding ends_def by blast
next
  fix z assume "z \<in> ends (Seq a b) x"
  then obtain w v' where "snd x = w @ v'" "w \<in> conc (lang a) (lang b)" "z = (fst x \<and> w = [], v')"
    unfolding ends_def by auto
  then obtain u u' where u: "snd x = u @ u' @ v'" "u \<in> lang a" "u' \<in> lang b" "z = (fst x \<and> u @ u' = [], v')"
    by (auto simp: conc_def)
  let ?y = "(fst x \<and> u = [], u' @ v')"
  have "?y \<in> ends a x" using u unfolding ends_def by blast
  moreover have "z \<in> ends b ?y" using u unfolding ends_def by auto
  ultimately show "z \<in> (\<Union>y \<in> ends a x. ends b y)" by blast
qed

lemma ends_Star: "insert x (\<Union>y \<in> {y \<in> ends r x. length (snd y) < length (snd x)}. ends (Star r) y) = ends (Star r) x"
  proof (intro set_eqI iffI)
    fix z
    assume "z \<in> insert x (\<Union>y \<in> {y \<in> ends r x. length (snd y) < length (snd x)}. ends (Star r) y)"
    then consider "z = x" | y where "y \<in> ends r x" "length (snd y) < length (snd x)" "z \<in> ends (Star r) y"
      by auto
    then show "z \<in> ends (Star r) x"
    proof cases
      case 1
      have "snd x = [] @ snd x" "[] \<in> lang (Star r)" "z = (fst x \<and> ([]::string) = [], snd x)"
        using 1 by (auto intro: star_Nil)
      then show ?thesis unfolding ends_def by blast
    next
      case 2
      then obtain u v where u: "snd x = u @ v" "u \<in> lang r" "y = (fst x \<and> u = [], v)"
        unfolding ends_def by auto
      with 2 have ne: "u \<noteq> []" by auto
      from 2(3) obtain u' v' where u': "v = u' @ v'" "u' \<in> star (lang r)" "z = (False, v')"
        using ne u(3) unfolding ends_def by auto
      have "u @ u' \<in> lang (Star r)" using u u' by (auto intro: star_app)
      moreover have "snd x = (u @ u') @ v'" using u u' by simp
      moreover have "z = (fst x \<and> u @ u' = [], v')" using u' ne by simp
      ultimately show ?thesis unfolding ends_def by blast
    qed
  next
    fix z
    assume "z \<in> ends (Star r) x"
    then obtain w v where w: "snd x = w @ v" "w \<in> star (lang r)" "z = (fst x \<and> w = [], v)"
      unfolding ends_def by auto
    from star_step_nonempty[OF w(2)]
    show "z \<in> insert x (\<Union>y \<in> {y \<in> ends r x. length (snd y) < length (snd x)}. ends (Star r) y)"
    proof
      assume "w = []"
      then have "z = x" using w by (cases x) auto
      then show ?thesis by simp
    next
      assume "\<exists>u v. w = u @ v \<and> u \<in> lang r \<and> u \<noteq> [] \<and> v \<in> star (lang r)"
      then obtain u u' where u: "w = u @ u'" "u \<in> lang r" "u \<noteq> []" "u' \<in> star (lang r)"
        by auto
      let ?y = "(False, u' @ v)"
      have "snd x = u @ (u' @ v)" "?y = (fst x \<and> u = [], u' @ v)" using u w by auto
      then have "?y \<in> ends r x" using u(2) unfolding ends_def by blast
      moreover have "length (snd ?y) < length (snd x)" using u w by auto
      moreover have "z \<in> ends (Star r) ?y"
      proof -
        have "snd ?y = u' @ v" "u' \<in> lang (Star r)" "z = (fst ?y \<and> u' = [], v)" using u w by auto
        then show ?thesis unfolding ends_def by blast
      qed
      ultimately show ?thesis by blast
    qed
  qed

lemma ends_Plus: "(\<Union>y \<in> ends r x. ends (Star r) y) = ends (Plus r) x"
proof -
  have "lang (Plus r) = lang (Seq r (Star r))" by simp
  then have "ends (Plus r) x = ends (Seq r (Star r)) x" unfolding ends_def by simp
  then show ?thesis using ends_Seq[of "Star r" r x] by simp
qed

lemma run_pure: "pure r \<Longrightarrow> set (run r x) = ends r x"
proof (induction r x rule: run.induct)
  case (1 x)
  then show ?case by (cases x) (auto simp: ends_def)
next
  case (2 c x)
  then show ?case by (cases x) (auto simp: ends_def split: list.splits)
next
  case (3 x)
  then show ?case by (cases x) (auto simp: ends_def split: list.splits)
next
  case (4 neg cs x)
  then show ?case by (cases x) (auto simp: ends_def split: list.splits)
next
  case (5 x)
  then show ?case by simp
next
  case (6 x)
  then show ?case by simp
next
  case (7 a b x)
  then have a: "set (run a x) = ends a x" and b: "\<And>y. y \<in> ends a x \<Longrightarrow> set (run b y) = ends b y"
    by auto
  have "set (run (Seq a b) x) = (\<Union>y \<in> ends a x. ends b y)"
    using a b by auto
  then show ?case by (simp only: ends_Seq)
next
  case (8 a b x)
  then have "set (run a x) = ends a x" "set (run b x) = ends b x" by auto
  then show ?case by (auto simp: ends_def)
next
  case (9 r x)
  then show ?case by (auto simp: ends_def)
next
  case (10 r x)
  then have a: "set (run r x) = ends r x"
    and b: "\<And>y. y \<in> ends r x \<Longrightarrow> set (run (Star r) y) = ends (Star r) y"
    by auto
  have "set (run (Plus r) x) = (\<Union>y \<in> set (run r x). set (run (Star r) y))"
    by (simp add: run.simps(10))
  then have "set (run (Plus r) x) = (\<Union>y \<in> ends r x. ends (Star r) y)"
    using a b by simp
  then show ?case by (simp only: ends_Plus)
next
  case (11 r x)
  then have a: "set (run r x) = ends r x"
    and b: "\<And>y. y \<in> ends r x \<Longrightarrow> length (snd y) < length (snd x)
             \<Longrightarrow> set (run (Star r) y) = ends (Star r) y"
    by auto
  have "set (run (Star r) x) =
      insert x (\<Union>y \<in> {y \<in> set (run r x). length (snd y) < length (snd x)}. set (run (Star r) y))"
    by (subst run.simps(11)) auto
  also have "\<dots> = insert x (\<Union>y \<in> {y \<in> ends r x. length (snd y) < length (snd x)}. ends (Star r) y)"
    using a b by auto
  finally show ?case by (simp only: ends_Star)
qed

text \<open>An expression between \<^verbatim>\<open>^\<close> and \<^verbatim>\<open>$\<close> is tested against the whole path.\<close>

lemma test_anchored: "test (Seq Bol r) s = (run r (True, s) \<noteq> [])"
proof -
  have "\<And>i. run (Seq Bol r) (i = 0, drop i s) = (if i = 0 then run r (True, s) else [])"
    by simp
  then have "test (Seq Bol r) s = (\<exists>i \<in> set [0..<Suc (length s)]. i = 0 \<and> run r (True, s) \<noteq> [])"
    unfolding test_def list_ex_iff by simp
  then show ?thesis by auto
qed

lemma run_until_Eol:
  "set (run (seq_of (ts @ [Eol])) x) = {y \<in> set (run (seq_of ts) x). snd y = []}"
proof (induction ts arbitrary: x)
  case Nil
  then show ?case by auto
next
  case (Cons t ts)
  then show ?case by auto
qed

lemma pure_seq_of: "pure (seq_of ts) = list_all pure ts"
  by (induction ts) auto

lemma test_whole:
  assumes "list_all pure ts"
  shows "test (seq_of (Bol # ts @ [Eol])) s = (s \<in> lang (seq_of ts))"
proof -
  have "test (seq_of (Bol # ts @ [Eol])) s = (set (run (seq_of (ts @ [Eol])) (True, s)) \<noteq> {})"
    by (simp add: test_anchored)
  also have "\<dots> = ({y \<in> ends (seq_of ts) (True, s). snd y = []} \<noteq> {})"
    using assms by (simp only: run_until_Eol run_pure pure_seq_of)
  also have "\<dots> = (s \<in> lang (seq_of ts))"
    unfolding ends_def by auto
  finally show ?thesis .
qed

section \<open>Reading the expression of a glob\<close>

text \<open>
  Each piece that the translation emits is read as one term, whatever was read before
  it and whatever follows.
\<close>

lemma steps_append:
  "steps st (xs @ ys) = (case steps st xs of Inl e \<Rightarrow> Inl e | Inr st' \<Rightarrow> steps st' ys)"
  by (induction xs arbitrary: st) (auto split: sum.splits)

lemma steps_any_segments:
  "steps (Normal, (alts, ts), stack) (''([^/]*/)*'' @ rest) =
   steps (Normal, (alts, any_segments # ts), stack) rest"
  by (simp add: quantify_def class_step_def close_frame_def backslash_def any_segments_def)

lemma steps_any_chars:
  "steps (Normal, (alts, ts), stack) (''[^/]*'' @ rest) =
   steps (Normal, (alts, Star (Cls True ''/'') # ts), stack) rest"
  by (simp add: quantify_def class_step_def backslash_def)

lemma steps_one_char:
  "steps (Normal, (alts, ts), stack) (''[^/]'' @ rest) =
   steps (Normal, (alts, Cls True ''/'' # ts), stack) rest"
  by (simp add: class_step_def backslash_def)

lemma steps_dot:
  "steps (Normal, (alts, ts), stack) ([backslash, CHR ''.''] @ rest) =
   steps (Normal, (alts, Lit CHR ''.'' # ts), stack) rest"
  by (simp add: backslash_def syntax_char_def)

lemma steps_literal:
  "literal_char c \<Longrightarrow>
   steps (Normal, (alts, ts), stack) (c # rest) = steps (Normal, (alts, Lit c # ts), stack) rest"
  by (simp add: literal_char_def)

lemma safe_glob_Cons:
  "safe_glob (c # g) = ((literal_char c \<or> c = CHR ''*'' \<or> c = CHR ''?'' \<or> c = CHR ''.'') \<and> safe_glob g)"
  by (simp add: safe_glob_def)

lemma safe_glob_drop: "safe_glob g \<Longrightarrow> safe_glob (drop n g)"
  unfolding safe_glob_def list_all_iff by (auto dest: in_set_dropD)

lemma steps_glob_pattern:
  "safe_glob g \<Longrightarrow>
   steps (Normal, (alts, ts), stack) (glob_pattern g @ rest) =
   steps (Normal, (alts, rev (glob_terms g) @ ts), stack) rest"
proof (induction g arbitrary: ts rule: glob_pattern.induct)
  case 1
  then show ?case by simp
next
  case (2 ch g)
  from "2.prems" have sg: "safe_glob g" and sd: "safe_glob (drop 2 g)"
    and ch: "literal_char ch \<or> ch = CHR ''*'' \<or> ch = CHR ''?'' \<or> ch = CHR ''.''"
    by (auto simp: safe_glob_Cons safe_glob_drop)
  consider (multi) "ch = CHR ''*''" "take 2 g = ''*/''"
    | (single) "ch = CHR ''*''" "take 2 g \<noteq> ''*/''"
    | (quest) "ch = CHR ''?''" | (dot) "ch = CHR ''.''"
    | (lit) "ch \<noteq> CHR ''*''" "ch \<noteq> CHR ''?''" "ch \<noteq> CHR ''.''"
    by blast
  then show ?case
  proof cases
    case multi
    have p: "glob_pattern (ch # g) @ rest = ''([^/]*/)*'' @ (glob_pattern (drop 2 g) @ rest)"
      and t: "rev (glob_terms (ch # g)) @ ts = rev (glob_terms (drop 2 g)) @ any_segments # ts"
      using multi by simp_all
    show ?thesis
      unfolding p t steps_any_segments by (rule "2.IH"(1)[OF multi sd])
  next
    case single
    have p: "glob_pattern (ch # g) @ rest = ''[^/]*'' @ (glob_pattern g @ rest)"
      and t: "rev (glob_terms (ch # g)) @ ts = rev (glob_terms g) @ Star (Cls True ''/'') # ts"
      using single by simp_all
    show ?thesis
      unfolding p t steps_any_chars by (rule "2.IH"(2)[OF single sg])
  next
    case quest
    then have n: "ch \<noteq> CHR ''*''" by simp
    have p: "glob_pattern (ch # g) @ rest = ''[^/]'' @ (glob_pattern g @ rest)"
      and t: "rev (glob_terms (ch # g)) @ ts = rev (glob_terms g) @ Cls True ''/'' # ts"
      using quest by simp_all
    show ?thesis
      unfolding p t steps_one_char by (rule "2.IH"(3)[OF n quest sg])
  next
    case dot
    then have n: "ch \<noteq> CHR ''*''" "ch \<noteq> CHR ''?''" by simp_all
    have p: "glob_pattern (ch # g) @ rest = [backslash, CHR ''.''] @ (glob_pattern g @ rest)"
      and t: "rev (glob_terms (ch # g)) @ ts = rev (glob_terms g) @ Lit CHR ''.'' # ts"
      using dot by simp_all
    show ?thesis
      unfolding p t steps_dot by (rule "2.IH"(4)[OF n dot sg])
  next
    case lit
    then have l: "literal_char ch" using ch by simp
    have p: "glob_pattern (ch # g) @ rest = ch # (glob_pattern g @ rest)"
      and t: "rev (glob_terms (ch # g)) @ ts = rev (glob_terms g) @ Lit ch # ts"
      using lit by simp_all
    show ?thesis
      unfolding p t steps_literal[OF l] by (rule "2.IH"(5)[OF lit sg])
  qed
qed

lemma pure_glob_terms: "list_all pure (glob_terms g)"
  by (induction g rule: glob_terms.induct) (simp_all add: any_segments_def)

lemma compile_safe:
  assumes "safe_glob g"
  shows "compile (glob_pattern g) =
    Inr \<lparr>source = ''^'' @ glob_pattern g @ ''$'', regex = seq_of (Bol # glob_terms g @ [Eol])\<rparr>"
proof -
  have "steps (Normal, ([], []), []) (''^'' @ glob_pattern g @ ''$'') =
        steps (Normal, ([], [Bol]), []) (glob_pattern g @ ''$'')"
    by simp
  also have "\<dots> = steps (Normal, ([], rev (glob_terms g) @ [Bol]), []) ''$''"
    by (rule steps_glob_pattern[OF assms])
  also have "\<dots> = Inr (Normal, ([], Eol # rev (glob_terms g) @ [Bol]), [])"
    by simp
  finally show ?thesis
    by (simp add: compile_def RegExp_def close_frame_def)
qed

lemma make_matches_safe:
  "safe_glob g \<Longrightarrow> make_matches g p = Inr (p \<in> glob_lang g)"
  using test_whole[OF pure_glob_terms, of g p]
  by (simp add: make_matches_def make_def FileGlob_string compile_safe fileglob_matches_def
      glob_lang_def del: FileGlob.simps)

section \<open>The language of a glob\<close>

lemma conc_assoc: "conc (conc A B) C = conc A (conc B C)"
  unfolding conc_def
  apply (intro set_eqI iffI)
   apply clarsimp
   apply (metis append_assoc)
  apply clarsimp
  apply (metis append_assoc)
  done

lemma conc_Nil_left: "conc {[]} A = A"
  by (auto simp: conc_def)

lemma conc_Nil_right: "conc A {[]} = A"
  by (auto simp: conc_def)

lemma lang_seq_of_append: "lang (seq_of (xs @ ys)) = conc (lang (seq_of xs)) (lang (seq_of ys))"
  by (induction xs) (simp_all add: conc_Nil_left conc_assoc)

lemma lang_seq_of_Cons: "lang (seq_of (t # ts)) = conc (lang t) (lang (seq_of ts))"
  by simp

lemma star_concat: "set ws \<subseteq> A \<Longrightarrow> concat ws \<in> star A"
  by (induction ws) (auto intro: star.intros)

lemma star_is_concat: "w \<in> star A \<Longrightarrow> \<exists>ws. set ws \<subseteq> A \<and> w = concat ws"
proof (induction rule: star.induct)
  case star_Nil
  have "set [] \<subseteq> A \<and> [] = concat ([]::string list)" by simp
  then show ?case by blast
next
  case (star_app u v)
  then obtain ws where "set ws \<subseteq> A" "v = concat ws" by blast
  then have "set (u # ws) \<subseteq> A \<and> u @ v = concat (u # ws)" using star_app by simp
  then show ?case by blast
qed

lemma lang_any_chars: "lang (Star (Cls True ''/'')) = {m. CHR ''/'' \<notin> set m}"
proof (intro set_eqI iffI)
  fix m assume "m \<in> lang (Star (Cls True ''/''))"
  then have "m \<in> star {[d] | d. d \<noteq> CHR ''/''}" by simp
  then have "CHR ''/'' \<notin> set m"
    by (induction rule: star.induct) auto
  then show "m \<in> {m. CHR ''/'' \<notin> set m}" by simp
next
  fix m assume "m \<in> {m. CHR ''/'' \<notin> set m}"
  then have "m \<in> star {[d] | d. d \<noteq> CHR ''/''}"
  proof (induction m)
    case Nil
    then show ?case by (simp add: star_Nil)
  next
    case (Cons d m)
    then have "[d] \<in> {[d] | d. d \<noteq> CHR ''/''}" "m \<in> star {[d] | d. d \<noteq> CHR ''/''}" by auto
    then have "[d] @ m \<in> star {[d] | d. d \<noteq> CHR ''/''}" by (rule star_app)
    then show ?case by simp
  qed
  then show "m \<in> lang (Star (Cls True ''/''))" by simp
qed

lemma lang_segment:
  "lang (Grp (Seq (Star (Cls True ''/'')) (Seq (Lit CHR ''/'') Eps))) = {m @ ''/'' | m. CHR ''/'' \<notin> set m}"
  unfolding lang.simps(9) lang.simps(7) lang_any_chars
  by (auto simp: conc_def)

lemma lang_any_segments:
  "lang any_segments =
   {concat (map (\<lambda>s. s @ ''/'') segs) | segs. list_all (\<lambda>s. CHR ''/'' \<notin> set s) segs}"
proof (intro set_eqI iffI)
  fix w assume "w \<in> lang any_segments"
  then have "w \<in> star {m @ ''/'' | m. CHR ''/'' \<notin> set m}"
    unfolding any_segments_def lang.simps(11) lang_segment .
  then obtain ws where ws: "set ws \<subseteq> {m @ ''/'' | m. CHR ''/'' \<notin> set m}" "w = concat ws"
    using star_is_concat by blast
  from ws(1) have "\<exists>segs. ws = map (\<lambda>s. s @ ''/'') segs \<and> list_all (\<lambda>s. CHR ''/'' \<notin> set s) segs"
  proof (induction ws)
    case Nil
    then show ?case by simp
  next
    case (Cons a ws)
    then obtain segs m where "ws = map (\<lambda>s. s @ ''/'') segs" "list_all (\<lambda>s. CHR ''/'' \<notin> set s) segs"
      "a = m @ ''/''" "CHR ''/'' \<notin> set m"
      by auto
    then have "a # ws = map (\<lambda>s. s @ ''/'') (m # segs) \<and> list_all (\<lambda>s. CHR ''/'' \<notin> set s) (m # segs)"
      by simp
    then show ?case by (rule exI)
  qed
  then show "w \<in> {concat (map (\<lambda>s. s @ ''/'') segs) | segs. list_all (\<lambda>s. CHR ''/'' \<notin> set s) segs}"
    using ws(2) by blast
next
  fix w assume "w \<in> {concat (map (\<lambda>s. s @ ''/'') segs) | segs. list_all (\<lambda>s. CHR ''/'' \<notin> set s) segs}"
  then obtain segs where segs: "w = concat (map (\<lambda>s. s @ ''/'') segs)" "list_all (\<lambda>s. CHR ''/'' \<notin> set s) segs"
    by blast
  have "set (map (\<lambda>s. s @ ''/'') segs) \<subseteq> {m @ ''/'' | m. CHR ''/'' \<notin> set m}"
    using segs(2) by (auto simp: list_all_iff)
  then have "w \<in> star {m @ ''/'' | m. CHR ''/'' \<notin> set m}"
    unfolding segs(1) by (rule star_concat)
  then show "w \<in> lang any_segments"
    unfolding any_segments_def lang.simps(11) lang_segment .
qed

subsection \<open>Cutting a glob\<close>

lemma take2_append_star:
  assumes "last (CHR ''*'' # g) \<noteq> CHR ''*'' \<or> (take 1 suf \<noteq> ''/'' \<and> take 2 suf \<noteq> ''*/'')"
  shows "(take 2 (g @ suf) = ''*/'') = (take 2 g = ''*/'')"
proof (cases g)
  case Nil
  then show ?thesis using assms by simp
next
  case (Cons c g')
  show ?thesis
  proof (cases g')
    case Nil
    then show ?thesis using Cons assms by (cases suf) auto
  next
    case (Cons d g'')
    then show ?thesis using \<open>g = c # g'\<close> by simp
  qed
qed

lemma clean_cut_tail: "clean_cut (c # g) suf \<Longrightarrow> clean_cut g suf"
  by (cases g) (auto simp: clean_cut_def)

lemma clean_cut_drop: "clean_cut g suf \<Longrightarrow> clean_cut (drop n g) suf"
  by (cases "n < length g") (auto simp: clean_cut_def last_drop)

lemma clean_cut_star:
  "clean_cut (CHR ''*'' # g) suf \<Longrightarrow> (take 2 (g @ suf) = ''*/'') = (take 2 g = ''*/'')"
  by (rule take2_append_star) (auto simp: clean_cut_def)

lemma drop2_append: "take 2 g = ''*/'' \<Longrightarrow> drop 2 (g @ suf) = drop 2 g @ suf"
  by (cases g; cases "tl g") auto

lemma glob_pattern_append:
  "clean_cut pre suf \<Longrightarrow> glob_pattern (pre @ suf) = glob_pattern pre @ glob_pattern suf"
proof (induction pre rule: glob_pattern.induct)
  case 1
  then show ?case by simp
next
  case (2 ch g)
  have t: "clean_cut g suf" "clean_cut (drop 2 g) suf"
    using "2.prems" clean_cut_tail clean_cut_drop by blast+
  show ?case
  proof (cases "ch = CHR ''*''")
    case True
    then have e: "(take 2 (g @ suf) = ''*/'') = (take 2 g = ''*/'')"
      using "2.prems" clean_cut_star by simp
    show ?thesis
    proof (cases "take 2 g = ''*/''")
      case multi: True
      then show ?thesis
        using True e "2.IH"(1)[OF True multi t(2)] by (simp add: drop2_append del: drop_append)
    next
      case single: False
      then show ?thesis
        using True e "2.IH"(2)[OF True single t(1)] by simp
    qed
  next
    case False
    then show ?thesis
      using "2.IH"(3,4,5) t(1) by simp
  qed
qed

lemma glob_terms_append:
  "clean_cut pre suf \<Longrightarrow> glob_terms (pre @ suf) = glob_terms pre @ glob_terms suf"
proof (induction pre rule: glob_terms.induct)
  case 1
  then show ?case by simp
next
  case (2 ch g)
  have t: "clean_cut g suf" "clean_cut (drop 2 g) suf"
    using "2.prems" clean_cut_tail clean_cut_drop by blast+
  show ?case
  proof (cases "ch = CHR ''*''")
    case True
    then have e: "(take 2 (g @ suf) = ''*/'') = (take 2 g = ''*/'')"
      using "2.prems" clean_cut_star by simp
    show ?thesis
    proof (cases "take 2 g = ''*/''")
      case multi: True
      then show ?thesis
        using True e "2.IH"(1)[OF True multi t(2)] by (simp add: drop2_append del: drop_append)
    next
      case single: False
      then show ?thesis
        using True e "2.IH"(2)[OF True single t(1)] by simp
    qed
  next
    case False
    then show ?thesis
      using "2.IH"(3,4) t(1) by simp
  qed
qed

lemma safe_glob_append: "safe_glob (a @ b) = (safe_glob a \<and> safe_glob b)"
  by (simp add: safe_glob_def)

lemma safe_glob_tokens: "safe_glob ''*''" "safe_glob ''**''" "safe_glob ''**/''"
  by (simp_all add: safe_glob_def literal_char_def backslash_def)

lemma glob_lang_append:
  "clean_cut pre suf \<Longrightarrow> glob_lang (pre @ suf) = conc (glob_lang pre) (glob_lang suf)"
  by (simp add: glob_lang_def glob_terms_append lang_seq_of_append)

lemma glob_lang_any_segments:
  "glob_lang (''**/'' @ post) = conc (lang any_segments) (glob_lang post)"
  by (simp add: glob_lang_def)

lemma glob_lang_any_chars:
  "take 2 post \<noteq> ''*/'' \<Longrightarrow>
   glob_lang (''*'' @ post) = conc {m. CHR ''/'' \<notin> set m} (glob_lang post)"
  using lang_any_chars by (simp add: glob_lang_def)

subsection \<open>The tokens between two globs\<close>

lemma make_matches_True_safe:
  "safe_glob g \<Longrightarrow> (make_matches g p = Inr True) = (p \<in> glob_lang g)"
  by (simp add: make_matches_safe)

lemma clean_cut_any_segments: "clean_cut pre (''**/'' @ post)"
  by (simp add: clean_cut_def)

lemma clean_cut_two_stars: "clean_cut pre (''**'' @ post)"
  by (simp add: clean_cut_def)

lemma glob_pattern_any_segments:
  "glob_pattern (pre @ ''**/'' @ post) = glob_pattern pre @ ''([^/]*/)*'' @ glob_pattern post"
proof -
  have "glob_pattern (''**/'' @ post) = ''([^/]*/)*'' @ glob_pattern post" by simp
  then show ?thesis
    unfolding glob_pattern_append[OF clean_cut_any_segments] by (rule arg_cong)
qed

lemma any_segments_semantics:
  assumes "safe_glob pre" "safe_glob post"
  shows "make_matches (pre @ ''**/'' @ post) path =
       Inr (\<exists>p1 segs p2. path = p1 @ concat (map (\<lambda>s. s @ ''/'') segs) @ p2 \<and>
              list_all (\<lambda>s. CHR ''/'' \<notin> set s) segs \<and>
              make_matches pre p1 = Inr True \<and> make_matches post p2 = Inr True)"
proof -
  have s: "safe_glob (pre @ ''**/'' @ post)"
    using assms by (simp only: safe_glob_append safe_glob_tokens)
  have "(path \<in> glob_lang (pre @ ''**/'' @ post)) =
        (\<exists>p1 w p2. path = p1 @ w @ p2 \<and> p1 \<in> glob_lang pre \<and> w \<in> lang any_segments \<and> p2 \<in> glob_lang post)"
    unfolding glob_lang_append[OF clean_cut_any_segments] glob_lang_any_segments conc_def
    by blast
  also have "\<dots> = (\<exists>p1 segs p2. path = p1 @ concat (map (\<lambda>s. s @ ''/'') segs) @ p2 \<and>
              list_all (\<lambda>s. CHR ''/'' \<notin> set s) segs \<and> p1 \<in> glob_lang pre \<and> p2 \<in> glob_lang post)"
    unfolding lang_any_segments by blast
  finally show ?thesis
    unfolding make_matches_safe[OF s] make_matches_True_safe[OF assms(1)] make_matches_True_safe[OF assms(2)]
    by simp
qed

lemma any_chars_semantics:
  assumes "safe_glob pre" "safe_glob post" "take 2 post \<noteq> ''*/''"
    "pre = [] \<or> last pre \<noteq> CHR ''*'' \<or> take 1 post \<noteq> ''/''"
  shows "make_matches (pre @ ''*'' @ post) path =
       Inr (\<exists>p1 m p2. path = p1 @ m @ p2 \<and> CHR ''/'' \<notin> set m \<and>
              make_matches pre p1 = Inr True \<and> make_matches post p2 = Inr True)"
proof -
  have s: "safe_glob (pre @ ''*'' @ post)"
    using assms by (simp only: safe_glob_append safe_glob_tokens)
  have c: "clean_cut pre (''*'' @ post)"
    using assms(4) by (cases post) (auto simp: clean_cut_def)
  have "(path \<in> glob_lang (pre @ ''*'' @ post)) =
        (\<exists>p1 m p2. path = p1 @ m @ p2 \<and> p1 \<in> glob_lang pre \<and> CHR ''/'' \<notin> set m \<and> p2 \<in> glob_lang post)"
    unfolding glob_lang_append[OF c] glob_lang_any_chars[OF assms(3)] conc_def
    by blast
  then show ?thesis
    unfolding make_matches_safe[OF s] make_matches_True_safe[OF assms(1)] make_matches_True_safe[OF assms(2)]
    by auto
qed

lemma conc_any_chars_twice:
  "conc {m. CHR ''/'' \<notin> set m} (conc {m. CHR ''/'' \<notin> set m} A) = conc {m. CHR ''/'' \<notin> set m} A"
proof (intro set_eqI iffI)
  fix w assume "w \<in> conc {m. CHR ''/'' \<notin> set m} (conc {m. CHR ''/'' \<notin> set m} A)"
  then obtain m1 m2 a where "w = m1 @ m2 @ a" "CHR ''/'' \<notin> set m1" "CHR ''/'' \<notin> set m2" "a \<in> A"
    unfolding conc_def by blast
  then have "w = (m1 @ m2) @ a" "CHR ''/'' \<notin> set (m1 @ m2)" "a \<in> A" by simp_all
  then show "w \<in> conc {m. CHR ''/'' \<notin> set m} A" unfolding conc_def by blast
next
  fix w assume "w \<in> conc {m. CHR ''/'' \<notin> set m} A"
  then obtain m a where "w = m @ a" "CHR ''/'' \<notin> set m" "a \<in> A"
    unfolding conc_def by blast
  then have "w = [] @ m @ a" "CHR ''/'' \<notin> set ([]::string)" "CHR ''/'' \<notin> set m" "a \<in> A" by simp_all
  then show "w \<in> conc {m. CHR ''/'' \<notin> set m} (conc {m. CHR ''/'' \<notin> set m} A)"
    unfolding conc_def by blast
qed

lemma dangling_two_stars:
  assumes "safe_glob pre" "safe_glob post" "take 1 post \<noteq> ''/''" "take 2 post \<noteq> ''*/''"
  shows "make_matches (pre @ ''**'' @ post) path = make_matches (pre @ ''*'' @ post) path"
proof -
  have s2: "safe_glob (pre @ ''**'' @ post)" and s1: "safe_glob (pre @ ''*'' @ post)"
    using assms by (simp_all only: safe_glob_append safe_glob_tokens)
  have c1: "clean_cut pre (''*'' @ post)"
    using assms(3) by (cases post) (auto simp: clean_cut_def)
  have n: "take 2 (''*'' @ post) \<noteq> ''*/''"
    using assms(3) by (cases post) auto
  have "''**'' @ post = ''*'' @ (''*'' @ post)" by simp
  then have "glob_lang (''**'' @ post) = conc {m. CHR ''/'' \<notin> set m} (glob_lang (''*'' @ post))"
    using glob_lang_any_chars[OF n] by simp
  then have "glob_lang (pre @ ''**'' @ post) = glob_lang (pre @ ''*'' @ post)"
    unfolding glob_lang_append[OF clean_cut_two_stars] glob_lang_append[OF c1]
      glob_lang_any_chars[OF assms(4)]
    by (simp only: conc_any_chars_twice)
  then show ?thesis
    unfolding make_matches_safe[OF s2] make_matches_safe[OF s1] by simp
qed

subsection \<open>Globs of literal characters\<close>

text \<open>
  A glob of literal characters matches itself and nothing else, and a glob of literal
  characters and glob tokens always compiles. Neither holds of every glob: the other
  characters are copied into the expression as they are.
\<close>

lemma glob_terms_literal: "list_all literal_char g \<Longrightarrow> glob_terms g = map Lit g"
  by (induction g) (auto simp: literal_char_def)

lemma lang_literals: "lang (seq_of (map Lit g)) = {g}"
  by (induction g) (auto simp: conc_def)

lemma literal_is_safe: "list_all literal_char g \<Longrightarrow> safe_glob g"
  unfolding safe_glob_def list_all_iff by blast

lemma literal_glob_exact:
  "list_all literal_char g \<Longrightarrow> make_matches g p = Inr (p = g)"
  by (simp add: make_matches_safe literal_is_safe glob_lang_def glob_terms_literal lang_literals)

lemma safe_glob_compiles: "safe_glob g \<Longrightarrow> \<exists>f. make g = Inr f"
  by (simp add: make_def FileGlob_string compile_safe del: FileGlob.simps)

lemma glob_pattern_without_question: "CHR ''?'' \<notin> set (glob_pattern g)"
  by (induction g rule: glob_pattern.induct) (auto simp: backslash_def)

lemma star_alone:
  "make_matches ''*'' path = Inr (CHR ''/'' \<notin> set path)"
proof -
  have "safe_glob ''*''" by (rule safe_glob_tokens)
  then show ?thesis
    using lang_any_chars by (simp add: make_matches_safe glob_lang_def conc_Nil_right)
qed

lemma any_segments_alone:
  "make_matches ''**/'' path =
     Inr (\<exists>segs. path = concat (map (\<lambda>s. s @ ''/'') segs) \<and> list_all (\<lambda>s. CHR ''/'' \<notin> set s) segs)"
proof -
  have s: "safe_glob ''**/''" by (rule safe_glob_tokens)
  have "glob_lang ''**/'' = lang any_segments"
    by (simp add: glob_lang_def conc_Nil_right)
  then have "(path \<in> glob_lang ''**/'') =
      (\<exists>segs. path = concat (map (\<lambda>s. s @ ''/'') segs) \<and> list_all (\<lambda>s. CHR ''/'' \<notin> set s) segs)"
    unfolding lang_any_segments by blast
  then show ?thesis
    unfolding make_matches_safe[OF s] by simp
qed

lemma test_empty_pattern: "test (Seq Bol (Seq Eol Eps)) path = (path = [])"
  using test_whole[of "[]" path] by simp

lemma concat_slashes: "concat (map (\<lambda>s. s @ ''/'') (replicate n [])) = replicate n CHR ''/''"
  by (induction n) simp_all

lemma slashes_between:
  "make_matches ''a/**/b'' (''a/'' @ replicate n CHR ''/'' @ ''b'') = Inr True"
proof -
  let ?path = "''a/'' @ replicate n CHR ''/'' @ ''b''"
  let ?P = "\<lambda>p1 segs p2. ?path = p1 @ concat (map (\<lambda>s. s @ ''/'') segs) @ p2 \<and>
              list_all (\<lambda>s. CHR ''/'' \<notin> set s) segs \<and>
              make_matches ''a/'' p1 = Inr True \<and> make_matches ''b'' p2 = Inr True"
  have m: "make_matches (''a/'' @ ''**/'' @ ''b'') ?path = Inr (\<exists>p1 segs p2. ?P p1 segs p2)"
    by (rule any_segments_semantics) (simp_all add: safe_glob_def literal_char_def backslash_def)
  have a: "make_matches ''a/'' ''a/'' = Inr True" and b: "make_matches ''b'' ''b'' = Inr True"
    by code_simp+
  have l: "list_all (\<lambda>s. CHR ''/'' \<notin> set s) (replicate n [])"
    by (simp add: list_all_iff)
  have "?P ''a/'' (replicate n []) ''b''"
    unfolding concat_slashes using a b l by simp
  then have "\<exists>p1 segs p2. ?P p1 segs p2" by blast
  then show ?thesis using m by simp
qed

section \<open>The claims\<close>

text \<open>
  C1, at a glob without \<^verbatim>\<open>*\<close>, \<^verbatim>\<open>?\<close> or \<^verbatim>\<open>.\<close>: the glob \<^verbatim>\<open>a+\<close> is copied
  unescaped into the expression \<^verbatim>\<open>^a+$\<close>, whose \<^verbatim>\<open>+\<close> repeats the \<^verbatim>\<open>a\<close>. The
  matcher accepts the path \<^verbatim>\<open>aa\<close>, which is not the glob, and rejects the path
  \<^verbatim>\<open>a+\<close>, which is.
\<close>

theorem plus_glob_not_literal:
  "make_matches ''a+'' ''aa'' = Inr True \<and> make_matches ''a+'' ''a+'' = Inr False"
  by code_simp

text \<open>
  C2, at the glob \<^verbatim>\<open>(\<close>: the expression \<^verbatim>\<open>^($\<close> has an unterminated group and
  \<^verbatim>\<open>new RegExp\<close> throws a SyntaxError, so \<^verbatim>\<open>make\<close> throws. So it does at
  \<^verbatim>\<open>)\<close>, at \<^verbatim>\<open>[\<close> and at \<^verbatim>\<open>+\<close>.
\<close>

theorem make_open_paren_throws:
  "make ''('' = Inl SyntaxError \<and> make '')'' = Inl SyntaxError \<and>
   make ''['' = Inl SyntaxError \<and> make ''+'' = Inl SyntaxError"
  by code_simp

text \<open>
  C3, as stated, fails at a FileGlob: the object that \<^verbatim>\<open>make\<close> returns exposes
  \<^verbatim>\<open>matches\<close> and \<^verbatim>\<open>filter\<close>, yet \<^verbatim>\<open>makeSet\<close> does not return it. The FileGlob of
  \<^verbatim>\<open>*.js\<close> matches \<^verbatim>\<open>a.js\<close>; what \<^verbatim>\<open>makeSet\<close> makes of it does not.
\<close>

theorem makeSet_rewraps_fileglob_counterexample:
  "(case make ''*.js'' of
      Inl e \<Rightarrow> False
    | Inr f \<Rightarrow>
        fileglob_matches f ''a.js'' \<and>
        (case makeSet (Single (VFileGlob f)) of
           Inl e \<Rightarrow> False
         | Inr s \<Rightarrow> \<not> matches s ''a.js''))"
  by code_simp

text \<open>
  C3, amended: \<^verbatim>\<open>makeSet\<close> returns an instance of \<^verbatim>\<open>Set\<close> (an Empty Set, a
  Pattern-List Set, a Complement or a Union) as it is, and applying \<^verbatim>\<open>makeSet\<close> to
  the result of \<^verbatim>\<open>makeSet\<close> changes nothing (a throw of the first call included).
\<close>

theorem makeSet_idempotent:
  "makeSet (Single (VSet s)) = Inr s \<and>
   (case makeSet globs of Inl e \<Rightarrow> Inl e | Inr s' \<Rightarrow> makeSet (Single (VSet s'))) = makeSet globs"
  by (cases "makeSet globs") simp_all

text \<open>
  C4: the scanner turns the three characters \<^verbatim>\<open>**/\<close> into \<^verbatim>\<open>([^/]*/)*\<close> wherever
  they stand; as a glob of its own the token accepts exactly the runs of zero or more
  segments without \<^verbatim>\<open>/\<close>, each followed by a \<^verbatim>\<open>/\<close>; the matcher for
  \<^verbatim>\<open>a/**/b\<close> accepts \<^verbatim>\<open>a/b\<close> and \<^verbatim>\<open>a/x/y/b\<close>; and between two globs of literal
  characters and glob tokens, the token accepts exactly such runs.
\<close>

theorem double_star_slash_segments:
  "FileGlob_loop (pre @ ''**/'' @ post) 0 [] =
     FileGlob_loop pre 0 [] @ ''([^/]*/)*'' @ FileGlob_loop post 0 [] \<and>
   make_matches ''**/'' path =
     Inr (\<exists>segs. path = concat (map (\<lambda>s. s @ ''/'') segs) \<and>
            list_all (\<lambda>s. CHR ''/'' \<notin> set s) segs) \<and>
   make_matches ''a/**/b'' ''a/b'' = Inr True \<and>
   make_matches ''a/**/b'' ''a/x/y/b'' = Inr True \<and>
   (safe_glob pre \<and> safe_glob post \<longrightarrow>
      make_matches (pre @ ''**/'' @ post) path =
        Inr (\<exists>p1 segs p2. path = p1 @ concat (map (\<lambda>s. s @ ''/'') segs) @ p2 \<and>
               list_all (\<lambda>s. CHR ''/'' \<notin> set s) segs \<and>
               make_matches pre p1 = Inr True \<and> make_matches post p2 = Inr True))"
proof -
  have "make_matches ''a/**/b'' ''a/b'' = Inr True"
    by code_simp
  moreover have "make_matches ''a/**/b'' ''a/x/y/b'' = Inr True"
    by code_simp
  ultimately show ?thesis
    using glob_pattern_any_segments any_segments_alone any_segments_semantics
    by (simp add: FileGlob_loop_glob_pattern)
qed

theorem double_star_slash_segments_witness:
  "safe_glob ''a/'' \<and> safe_glob ''b'' \<and>
   (\<exists>p1 segs p2. ''a/x/y/b'' = p1 @ concat (map (\<lambda>s. s @ ''/'') segs) @ p2 \<and>
      list_all (\<lambda>s. CHR ''/'' \<notin> set s) segs \<and>
      make_matches ''a/'' p1 = Inr True \<and> make_matches ''b'' p2 = Inr True)"
proof -
  let ?D = "\<exists>p1 segs p2. ''a/x/y/b'' = p1 @ concat (map (\<lambda>s. s @ ''/'') segs) @ p2 \<and>
      list_all (\<lambda>s. CHR ''/'' \<notin> set s) segs \<and>
      make_matches ''a/'' p1 = Inr True \<and> make_matches ''b'' p2 = Inr True"
  note c4 = double_star_slash_segments[where pre = "''a/''" and post = "''b''" and path = "''a/x/y/b''"]
  have s: "safe_glob ''a/'' \<and> safe_glob ''b''"
    by (simp add: safe_glob_def literal_char_def backslash_def)
  have t: "make_matches ''a/**/b'' ''a/x/y/b'' = Inr True"
    using c4 by blast
  have "make_matches (''a/'' @ ''**/'' @ ''b'') ''a/x/y/b'' = Inr ?D"
    using c4 s by blast
  then have "Inr ?D = (Inr True :: error + bool)"
    using t by simp
  then have ?D
    by (simp only: sum.inject simp_thms)
  then show ?thesis
    using s by blast
qed

text \<open>
  C5: as a glob of its own, \<^verbatim>\<open>*\<close> accepts exactly the paths without \<^verbatim>\<open>/\<close>, the
  empty one included; the matcher for \<^verbatim>\<open>a/*\<close> rejects \<^verbatim>\<open>a/b/c\<close> and accepts
  \<^verbatim>\<open>a/bc\<close>; and a \<^verbatim>\<open>*\<close> that the scanner reads alone (the glob after it does not
  begin with \<^verbatim>\<open>*/\<close>, and the glob before it does not end in a \<^verbatim>\<open>*\<close> when a
  \<^verbatim>\<open>/\<close> follows), between two globs of literal characters and glob tokens,
  accepts exactly the strings without \<^verbatim>\<open>/\<close>.
\<close>

theorem single_star_stays_in_segment:
  "make_matches ''*'' path = Inr (CHR ''/'' \<notin> set path) \<and>
   make_matches ''a/*'' ''a/b/c'' = Inr False \<and>
   make_matches ''a/*'' ''a/bc'' = Inr True \<and>
   (safe_glob pre \<and> safe_glob post \<and> take 2 post \<noteq> ''*/'' \<and>
    (pre = [] \<or> last pre \<noteq> CHR ''*'' \<or> take 1 post \<noteq> ''/'') \<longrightarrow>
      make_matches (pre @ ''*'' @ post) path =
        Inr (\<exists>p1 m p2. path = p1 @ m @ p2 \<and> CHR ''/'' \<notin> set m \<and>
               make_matches pre p1 = Inr True \<and> make_matches post p2 = Inr True))"
proof -
  have "make_matches ''a/*'' ''a/b/c'' = Inr False"
    by code_simp
  moreover have "make_matches ''a/*'' ''a/bc'' = Inr True"
    by code_simp
  ultimately show ?thesis
    using star_alone any_chars_semantics by blast
qed

theorem single_star_stays_in_segment_witness:
  "safe_glob ''a/'' \<and> safe_glob [] \<and>
   (\<exists>p1 m p2. ''a/bc'' = p1 @ m @ p2 \<and> CHR ''/'' \<notin> set m \<and>
      make_matches ''a/'' p1 = Inr True \<and> make_matches [] p2 = Inr True) \<and>
   \<not> (\<exists>p1 m p2. ''a/b/c'' = p1 @ m @ p2 \<and> CHR ''/'' \<notin> set m \<and>
      make_matches ''a/'' p1 = Inr True \<and> make_matches [] p2 = Inr True)"
proof -
  let ?D = "\<lambda>path. \<exists>p1 m p2. path = p1 @ m @ p2 \<and> CHR ''/'' \<notin> set m \<and>
      make_matches ''a/'' p1 = Inr True \<and> make_matches [] p2 = Inr True"
  note c5 = single_star_stays_in_segment[where pre = "''a/''" and post = "[]"]
  have s: "safe_glob ''a/'' \<and> safe_glob []"
    by (simp add: safe_glob_def literal_char_def backslash_def)
  have h: "take 2 ([]::string) \<noteq> ''*/'' \<and> ([] = ''a/'' \<or> last ''a/'' \<noteq> CHR ''*'' \<or> take 1 ([]::string) \<noteq> ''/'')"
    by simp
  have t: "make_matches ''a/*'' ''a/b/c'' = Inr False" "make_matches ''a/*'' ''a/bc'' = Inr True"
    using c5 by blast+
  have e: "make_matches (''a/'' @ ''*'' @ []) path = Inr (?D path)" for path
    using c5[where path = path] s h by blast
  have "Inr (?D ''a/bc'') = (Inr True :: error + bool)"
    using e[of "''a/bc''"] t(2) by simp
  then have yes: "?D ''a/bc''"
    by (simp only: sum.inject simp_thms)
  have "Inr (?D ''a/b/c'') = (Inr False :: error + bool)"
    using e[of "''a/b/c''"] t(1) by simp
  then have no: "\<not> ?D ''a/b/c''"
    by (simp only: sum.inject simp_thms)
  show ?thesis
    using s yes no by blast
qed

text \<open>
  C6, as stated, fails at the glob \<^verbatim>\<open>***/x\<close>: its first two stars are not followed by
  a \<^verbatim>\<open>/\<close>, yet with them replaced by one star the glob is \<^verbatim>\<open>**/x\<close>, in which the
  scanner finds the token \<^verbatim>\<open>**/\<close>. The first accepts the path \<^verbatim>\<open>ax\<close>, the second
  does not. It also fails at \<^verbatim>\<open>[**\<close>, where the unescaped \<^verbatim>\<open>[\<close> takes the
  beginning of the first star's expression into a character class: \<^verbatim>\<open>[**\<close> accepts
  the path \<^verbatim>\<open>a\<close> and \<^verbatim>\<open>[*\<close> does not.
\<close>

theorem dangling_stars_counterexample:
  "make_matches (''**'' @ ''*/x'') ''ax'' = Inr True \<and>
   make_matches (''*'' @ ''*/x'') ''ax'' = Inr False \<and>
   make_matches (''['' @ ''**'') ''a'' = Inr True \<and>
   make_matches (''['' @ ''*'') ''a'' = Inr False"
  by code_simp

text \<open>
  C6, amended: in a glob of literal characters and glob tokens, a \<^verbatim>\<open>**\<close> that is
  followed neither by \<^verbatim>\<open>/\<close> nor by \<^verbatim>\<open>*/\<close> can be replaced by a single \<^verbatim>\<open>*\<close>:
  the two matchers give the same answer on every path.
\<close>

theorem dangling_stars_as_one_star:
  "safe_glob pre \<Longrightarrow> safe_glob post \<Longrightarrow> take 1 post \<noteq> ''/'' \<Longrightarrow> take 2 post \<noteq> ''*/'' \<Longrightarrow>
   make_matches (pre @ ''**'' @ post) path = make_matches (pre @ ''*'' @ post) path"
  by (rule dangling_two_stars)

theorem dangling_stars_as_one_star_witness:
  "safe_glob ''a/'' \<and> safe_glob ''b'' \<and> take 1 ''b'' \<noteq> ''/'' \<and> take 2 ''b'' \<noteq> ''*/'' \<and>
   make_matches ''a/**b'' ''a/xb'' = make_matches ''a/*b'' ''a/xb'' \<and>
   make_matches ''a/*b'' ''a/xb'' = Inr True"
proof -
  have s: "safe_glob ''a/''" "safe_glob ''b''"
    by (simp_all add: safe_glob_def literal_char_def backslash_def)
  have t: "take 1 ''b'' \<noteq> ''/''" "take 2 ''b'' \<noteq> ''*/''"
    by simp_all
  have "make_matches ''a/*b'' ''a/xb'' = Inr True"
    by code_simp
  then show ?thesis
    using s t dangling_stars_as_one_star[OF s t, of "''a/xb''"] by simp
qed

text \<open>
  C7: for each of the four kinds of set, \<^verbatim>\<open>filter\<close> keeps, in their order, exactly
  the paths of the list on which \<^verbatim>\<open>matches\<close> of the same set is true.
\<close>

theorem filter_set_is_filter_matches: "filter_set S list = filter (matches S) list"
  by (cases S) simp_all

text \<open>
  C8: what \<^verbatim>\<open>make\<close> returns is not an instance of \<^verbatim>\<open>Set\<close>. \<^verbatim>\<open>makeSet\<close> wraps it
  in an array and hands it to \<^verbatim>\<open>FileGlobSet\<close>, which builds a new set of one FileGlob
  from it; the object has no \<^verbatim>\<open>length\<close>, so that FileGlob is the one of the empty
  pattern, \<^verbatim>\<open>^$\<close>, and the new set matches the empty path only.
\<close>

theorem make_result_is_not_a_set:
  "make g = Inr f \<Longrightarrow>
   isaSet (Single (VFileGlob f)) = False \<and>
   makeSet (Single (VFileGlob f)) = FileGlobSet [VFileGlob f] \<and>
   makeSet (Single (VFileGlob f)) =
     Inr (FileGlobSetObj [\<lparr>source = ''^$'', regex = Seq Bol (Seq Eol Eps)\<rparr>]) \<and>
   matches (FileGlobSetObj [\<lparr>source = ''^$'', regex = Seq Bol (Seq Eol Eps)\<rparr>]) path = (path = [])"
  by (simp add: FileGlobSet_def compile_def RegExp_def close_frame_def fileglob_matches_def
      test_empty_pattern)

theorem make_result_is_not_a_set_witness:
  "\<exists>f. make ''*.js'' = Inr f \<and> isaSet (Single (VFileGlob f)) = False \<and>
     makeSet (Single (VFileGlob f)) =
       Inr (FileGlobSetObj [\<lparr>source = ''^$'', regex = Seq Bol (Seq Eol Eps)\<rparr>])"
proof -
  have "safe_glob ''*.js''"
    by (simp add: safe_glob_def literal_char_def backslash_def)
  then obtain f where f: "make ''*.js'' = Inr f"
    using safe_glob_compiles by blast
  show ?thesis
    using f make_result_is_not_a_set[OF f] by blast
qed

text \<open>
  C9: a segment matched by \<^verbatim>\<open>**/\<close> may be empty: the matcher for \<^verbatim>\<open>a/**/b\<close>
  accepts \<^verbatim>\<open>a//b\<close>, and \<^verbatim>\<open>a/\<close> followed by any number of slashes and \<^verbatim>\<open>b\<close>.
\<close>

theorem double_star_slash_empty_segments:
  "make_matches ''a/**/b'' ''a//b'' = Inr True \<and>
   make_matches ''a/**/b'' (''a/'' @ replicate n CHR ''/'' @ ''b'') = Inr True"
proof -
  have "make_matches ''a/**/b'' ''a//b'' = Inr True"
    by code_simp
  then show ?thesis
    using slashes_between by simp
qed

text \<open>
  C10: \<^verbatim>\<open>makeUnion()\<close> with no argument is a Union of no sets; it matches no path
  and filters every list to the empty list, as the Empty Set does.
\<close>

theorem makeUnion_no_arguments:
  "makeUnion [] = Inr (UnionObj []) \<and>
   matches (UnionObj []) path = False \<and>
   filter_set (UnionObj []) list = [] \<and>
   matches (UnionObj []) path = matches EmptySet path \<and>
   filter_set (UnionObj []) list = filter_set EmptySet list"
  by (simp add: makeUnion_def)

end
